theory Spec2Isabelle
  imports Main "HOL-Library.Sublist"
begin

section \<open>The StateManager of stickler and the event loop it runs on\<close>

text \<open>
  The class \<open>StateManager\<close> keeps a current state, a queue of buffered actions, a
  lifecycle status, one slot for the callback of a pending stop and one slot
  \<open>queuedProcessing\<close> meant to hold the handle of the next deferred processing run.
  Its methods run on a single-threaded event loop: \<open>setTimeout\<close> registers a callback
  that runs later as a task of its own, and every \<open>await\<close> suspends the running
  function until a later step of the loop.  The model below makes both explicit: the
  record carries the fields of the class and, next to them, the part of the event loop
  that the class uses (the callbacks registered with \<open>setTimeout\<close> and the suspended
  \<open>await\<close>s), and three logs of what has been observed from outside.
\<close>

subsection \<open>Types\<close>

datatype StateManagerStatus = STOPPED | RUNNING | STOP_PENDING

text \<open>
  A transition handler has the type \<open>(data: D) => S | Promise<S>\<close>.  A call either
  raises, or returns a state, or returns a promise, which later is fulfilled with a state
  or rejected.
\<close>

datatype 's promise = Fulfils 's | Rejects

datatype 's returned = Value 's | Promise "'s promise"

datatype 's outcome = Return "'s returned" | Throw

text \<open>
  \<open>StateMap<S, A> = Record<S, Partial<Record<A, Transition<any, S>>>>\<close>: every state has
  a transition map, an action may have no handler there.
\<close>

type_synonym ('s, 'a, 'd) StateMap = "'s \<Rightarrow> 'a \<Rightarrow> ('d \<Rightarrow> 's outcome) option"

text \<open>
  A run of the timer callback is suspended at one of two places: at
  \<open>await transition(action.data)\<close> inside \<open>process\<close> (the handler has been invoked
  and has returned the given value or promise), or at \<open>await this.process()\<close> when
  \<open>process\<close> has returned without invoking a handler.
\<close>

datatype 's suspension = AwaitProcess | AwaitTransition "'s returned"

record ('s, 'a, 'd) StateManager =
  currentState :: 's
  actionQueue :: "('a \<times> 'd) list"
  status :: StateManagerStatus
  stopCallback :: "nat option"
  queuedProcessing :: "nat option"
  timers :: nat
  suspended :: "'s suspension list"
  resolved :: "nat list"
  invoked :: "('s \<times> 'a \<times> 'd) list"
  uncaught :: nat

text \<open>
  \<^item> \<open>stopCallback\<close> holds the \<open>resolve\<close> function of the promise that \<open>stop\<close> returned;
    promises are told apart by a number.
  \<^item> \<open>queuedProcessing\<close> would hold a timer handle.
  \<^item> \<open>timers\<close> counts the callbacks registered with \<open>setTimeout\<close> that have not run
    yet.  They are all the same closure, so their number is all there is to know.
  \<^item> \<open>suspended\<close> lists the runs of the timer callback that wait at an \<open>await\<close>.
  \<^item> \<open>resolved\<close> logs the stop promises that were resolved, \<open>invoked\<close> the handler
    invocations (state at the time of the lookup, action, payload), both in order;
    \<open>uncaught\<close> counts the runs of the timer callback that ended with an exception.
\<close>

subsection \<open>The methods\<close>

definition new_StateManager :: "'s \<Rightarrow> ('s, 'a, 'd) StateManager" where
  "new_StateManager initialState =
     \<lparr> currentState = initialState, actionQueue = [], status = STOPPED,
       stopCallback = None, queuedProcessing = None,
       timers = 0, suspended = [], resolved = [], invoked = [], uncaught = 0 \<rparr>"

definition getCurrentState :: "('s, 'a, 'd) StateManager \<Rightarrow> 's" where
  "getCurrentState m = currentState m"

text \<open>
  \<open>queueProcessing\<close> returns at once when \<open>queuedProcessing\<close> is set.  Otherwise it
  calls \<open>setTimeout\<close>; the handle that \<open>setTimeout\<close> returns is not stored, so the field
  keeps its value.
\<close>

definition queueProcessing :: "('s, 'a, 'd) StateManager \<Rightarrow> ('s, 'a, 'd) StateManager" where
  "queueProcessing m =
     (if queuedProcessing m \<noteq> None then m else m\<lparr>timers := Suc (timers m)\<rparr>)"

definition pushAction ::
  "'a \<Rightarrow> 'd \<Rightarrow> ('s, 'a, 'd) StateManager \<Rightarrow> ('s, 'a, 'd) StateManager" where
  "pushAction action data m =
     (let m1 = m\<lparr>actionQueue := actionQueue m @ [(action, data)]\<rparr>
      in if status m1 = RUNNING then queueProcessing m1 else m1)"

definition start :: "('s, 'a, 'd) StateManager \<Rightarrow> ('s, 'a, 'd) StateManager" where
  "start m =
     (if status m = STOPPED then queueProcessing (m\<lparr>status := RUNNING\<rparr>) else m)"

definition stop :: "nat \<Rightarrow> ('s, 'a, 'd) StateManager \<Rightarrow> ('s, 'a, 'd) StateManager" where
  "stop resolve m =
     queueProcessing (m\<lparr>status := STOP_PENDING, stopCallback := Some resolve\<rparr>)"

text \<open>
  \<open>process\<close> up to its first suspension.  When the queue is empty or the current state has
  no handler for the action, it returns, and the caller's \<open>await this.process()\<close>
  suspends the timer callback.  When a handler is found it is invoked; if it raises, the
  exception leaves \<open>process\<close> and the timer callback, otherwise \<open>process\<close> is suspended
  at the \<open>await\<close> of what the handler returned.
\<close>

definition process ::
  "('s, 'a, 'd) StateMap \<Rightarrow> ('s, 'a, 'd) StateManager \<Rightarrow> ('s, 'a, 'd) StateManager" where
  "process states m =
     (case actionQueue m of
        [] \<Rightarrow> m\<lparr>suspended := suspended m @ [AwaitProcess]\<rparr>
      | (action, data) # rest \<Rightarrow>
          (let m1 = m\<lparr>actionQueue := rest\<rparr> in
           case states (currentState m1) action of
             None \<Rightarrow> m1\<lparr>suspended := suspended m1 @ [AwaitProcess]\<rparr>
           | Some transition \<Rightarrow>
               (let m2 = m1\<lparr>invoked := invoked m1 @ [(currentState m1, action, data)]\<rparr> in
                case transition data of
                  Throw \<Rightarrow> m2\<lparr>uncaught := Suc (uncaught m2)\<rparr>
                | Return r \<Rightarrow> m2\<lparr>suspended := suspended m2 @ [AwaitTransition r]\<rparr>)))"

text \<open>
  The callback that \<open>queueProcessing\<close> hands to \<open>setTimeout\<close>, up to its first
  suspension.  In the branch of a pending stop the status is set before the callback is
  called, so a missing callback would raise with the status already \<open>STOPPED\<close>.
\<close>

definition timeout_callback ::
  "('s, 'a, 'd) StateMap \<Rightarrow> ('s, 'a, 'd) StateManager \<Rightarrow> ('s, 'a, 'd) StateManager" where
  "timeout_callback states m =
     (let m1 = m\<lparr>queuedProcessing := None\<rparr> in
      if status m1 = STOP_PENDING then
        (let m2 = m1\<lparr>status := STOPPED\<rparr> in
         case stopCallback m2 of
           None \<Rightarrow> m2\<lparr>uncaught := Suc (uncaught m2)\<rparr>
         | Some resolve \<Rightarrow> m2\<lparr>resolved := resolved m2 @ [resolve], stopCallback := None\<rparr>)
      else process states m1)"

text \<open>
  The rest of the timer callback, after \<open>await this.process()\<close>: queue another run
  when actions are left.
\<close>

definition requeue :: "('s, 'a, 'd) StateManager \<Rightarrow> ('s, 'a, 'd) StateManager" where
  "requeue m = (if actionQueue m = [] then m else queueProcessing m)"

text \<open>
  A suspended run continues.  After \<open>await transition(action.data)\<close> the value is
  assigned to \<open>currentState\<close>, \<open>process\<close> returns and the timer callback goes on behind
  its own \<open>await\<close>; a rejected promise makes the \<open>await\<close> raise, which ends both
  functions.
\<close>

fun resume ::
  "'s suspension \<Rightarrow> ('s, 'a, 'd) StateManager \<Rightarrow> ('s, 'a, 'd) StateManager" where
  "resume AwaitProcess m = requeue m"
| "resume (AwaitTransition (Value s)) m = requeue (m\<lparr>currentState := s\<rparr>)"
| "resume (AwaitTransition (Promise (Fulfils s))) m = requeue (m\<lparr>currentState := s\<rparr>)"
| "resume (AwaitTransition (Promise Rejects)) m = m\<lparr>uncaught := Suc (uncaught m)\<rparr>"

subsection \<open>The event loop\<close>

text \<open>
  What can happen to a manager: its three public methods are called (from the
  application, or from a handler; a call made by a handler before it returns sees the
  manager exactly as a call made right after the timer callback has suspended), a
  registered timer callback runs, or a suspended run continues.

  An \<open>await\<close> of a plain value, and of the promise of a \<open>process\<close> that has already
  returned, continues in a microtask, and the event loop runs no timer callback while a
  microtask is waiting.  An \<open>await\<close> of a promise that the handler returned continues
  whenever that promise settles.
\<close>

datatype ('a, 'd) event =
    Call_pushAction 'a 'd
  | Call_start
  | Call_stop nat
  | Timeout
  | Resume nat

fun microtask :: "'s suspension \<Rightarrow> bool" where
  "microtask AwaitProcess = True"
| "microtask (AwaitTransition (Value s)) = True"
| "microtask (AwaitTransition (Promise p)) = False"

fun step ::
  "('s, 'a, 'd) StateMap \<Rightarrow> ('s, 'a, 'd) StateManager \<Rightarrow> ('a, 'd) event \<Rightarrow>
     ('s, 'a, 'd) StateManager option" where
  "step states m (Call_pushAction action data) = Some (pushAction action data m)"
| "step states m Call_start = Some (start m)"
| "step states m (Call_stop resolve) = Some (stop resolve m)"
| "step states m Timeout =
     (if timers m = 0 \<or> list_ex microtask (suspended m) then None
      else Some (timeout_callback states (m\<lparr>timers := timers m - 1\<rparr>)))"
| "step states m (Resume k) =
     (if k < length (suspended m)
      then Some (resume (suspended m ! k)
                   (m\<lparr>suspended := take k (suspended m) @ drop (Suc k) (suspended m)\<rparr>))
      else None)"

fun run ::
  "('s, 'a, 'd) StateMap \<Rightarrow> ('s, 'a, 'd) StateManager \<Rightarrow> ('a, 'd) event list \<Rightarrow>
     ('s, 'a, 'd) StateManager option" where
  "run states m [] = Some m"
| "run states m (e # es) =
     (case step states m e of None \<Rightarrow> None | Some m1 \<Rightarrow> run states m1 es)"

definition reachable ::
  "('s, 'a, 'd) StateMap \<Rightarrow> 's \<Rightarrow> ('s, 'a, 'd) StateManager \<Rightarrow> bool" where
  "reachable states initialState m \<longleftrightarrow>
     (\<exists>es. run states (new_StateManager initialState) es = Some m)"

subsection \<open>A small machine for concrete runs\<close>

text \<open>
  Three states and two actions, as in the repository's tests, which use
  \<open>enum states { S1, S2 }\<close> and \<open>enum actions { A1, A2 }\<close>.  In \<open>slow_table\<close> the handler
  of \<open>A1\<close> in \<open>S1\<close> is asynchronous: it returns a promise that is fulfilled with \<open>S2\<close>.
  In \<open>quick_table\<close> it returns \<open>S2\<close> at once, as the handler of the test
  "correct handles a transition" does.  In \<open>both_slow_table\<close> both actions have an
  asynchronous handler in \<open>S1\<close>, and in \<open>failing_table\<close> the handler of \<open>A1\<close> raises and
  the handler of \<open>A2\<close> returns a promise that is rejected.
\<close>

datatype states = S1 | S2 | S3

datatype actions = A1 | A2

definition slow_table :: "(states, actions, unit) StateMap" where
  "slow_table s a =
     (if s = S1 \<and> a = A1 then Some (\<lambda>_. Return (Promise (Fulfils S2)))
      else if s = S1 \<and> a = A2 then None
      else if s = S2 \<and> a = A2 then Some (\<lambda>_. Return (Value S3))
      else None)"

definition quick_table :: "(states, actions, unit) StateMap" where
  "quick_table s a =
     (if s = S1 \<and> a = A1 then Some (\<lambda>_. Return (Value S2)) else None)"

definition both_slow_table :: "(states, actions, unit) StateMap" where
  "both_slow_table s a =
     (if s = S1 \<and> a = A1 then Some (\<lambda>_. Return (Promise (Fulfils S2)))
      else if s = S1 \<and> a = A2 then Some (\<lambda>_. Return (Promise (Fulfils S3)))
      else None)"


subsection \<open>The order the documentation promises\<close>

text \<open>
  The README promises that "actions will be processed in order, and one at a time".
  \<open>spec_apply_in_order\<close> is that promise written out, not a translation of the code: each
  action in turn is looked up in the state that the action before it has left behind, and
  its handler, if there is one, gives the next state (a handler that fails leaves the
  state as it is).
\<close>

fun spec_apply_in_order :: "('s, 'a, 'd) StateMap \<Rightarrow> 's \<Rightarrow> ('a \<times> 'd) list \<Rightarrow> 's" where
  "spec_apply_in_order states s [] = s"
| "spec_apply_in_order states s ((action, data) # rest) =
     (case states s action of
        None \<Rightarrow> spec_apply_in_order states s rest
      | Some transition \<Rightarrow>
          (case transition data of
             Return (Value s1) \<Rightarrow> spec_apply_in_order states s1 rest
           | Return (Promise (Fulfils s1)) \<Rightarrow> spec_apply_in_order states s1 rest
           | Return (Promise Rejects) \<Rightarrow> spec_apply_in_order states s rest
           | Throw \<Rightarrow> spec_apply_in_order states s rest))"



subsection \<open>Synchronous tables\<close>

text \<open>
  A table is synchronous when every handler returns a state itself, never a promise, and
  never raises.
\<close>

definition synchronous :: "('s, 'a, 'd) StateMap \<Rightarrow> bool" where
  "synchronous states \<longleftrightarrow>
     (\<forall>s a t d. states s a = Some t \<longrightarrow> (\<exists>s1. t d = Return (Value s1)))"

text \<open>
  The state that is current once the waiting microtask, if there is one that will assign
  a state, has run.
\<close>

fun about_to_commit :: "'s suspension list \<Rightarrow> 's \<Rightarrow> 's" where
  "about_to_commit [AwaitTransition (Value s)] c = s"
| "about_to_commit xs c = c"

subsection \<open>What a run was given\<close>

text \<open>
  The actions that the calls of \<open>pushAction\<close> in a run have pushed, and the callbacks that
  its calls of \<open>stop\<close> have handed over, both in order.
\<close>

fun pushed :: "('a, 'd) event list \<Rightarrow> ('a \<times> 'd) list" where
  "pushed [] = []"
| "pushed (Call_pushAction action data # es) = (action, data) # pushed es"
| "pushed (e # es) = pushed es"

fun stop_calls :: "('a, 'd) event list \<Rightarrow> nat list" where
  "stop_calls [] = []"
| "stop_calls (Call_stop resolve # es) = resolve # stop_calls es"
| "stop_calls (e # es) = stop_calls es"

section \<open>Basic facts\<close>

lemmas method_defs =
  new_StateManager_def queueProcessing_def pushAction_def start_def stop_def process_def
  timeout_callback_def requeue_def

subsection \<open>Runs and reachable managers\<close>

lemma run_snoc:
  "run states m (es @ [e]) =
     (case run states m es of None \<Rightarrow> None | Some m1 \<Rightarrow> step states m1 e)"
  by (induction es arbitrary: m) (auto split: option.splits)

lemma run_append:
  "run states m (es @ fs) =
     (case run states m es of None \<Rightarrow> None | Some m1 \<Rightarrow> run states m1 fs)"
  by (induction es arbitrary: m) (auto split: option.splits)

lemma reachable_new: "reachable states i (new_StateManager i)"
  unfolding reachable_def by (rule exI [of _ "[]"]) simp

lemma reachable_step:
  assumes "reachable states i m" and "step states m e = Some m'"
  shows "reachable states i m'"
proof -
  from assms(1) obtain es where "run states (new_StateManager i) es = Some m"
    unfolding reachable_def by blast
  with assms(2) have "run states (new_StateManager i) (es @ [e]) = Some m'"
    by (simp add: run_snoc)
  then show ?thesis unfolding reachable_def by blast
qed

lemma reachable_run:
  assumes "reachable states i m" and "run states m es = Some m'"
  shows "reachable states i m'"
proof -
  from assms(1) obtain fs where "run states (new_StateManager i) fs = Some m"
    unfolding reachable_def by blast
  with assms(2) have "run states (new_StateManager i) (fs @ es) = Some m'"
    by (simp add: run_append)
  then show ?thesis unfolding reachable_def by blast
qed

lemma reachable_induct [consumes 1, case_names new step]:
  assumes reach: "reachable states i m"
    and new: "P (new_StateManager i)"
    and step: "\<And>m e m'. reachable states i m \<Longrightarrow> P m \<Longrightarrow> step states m e = Some m' \<Longrightarrow> P m'"
  shows "P m"
proof -
  have "run states (new_StateManager i) es = Some m \<Longrightarrow> P m" for es
  proof (induction es arbitrary: m rule: rev_induct)
    case Nil
    then show ?case using new by simp
  next
    case (snoc e es)
    from snoc.prems obtain m1 where
      m1: "run states (new_StateManager i) es = Some m1" and e: "step states m1 e = Some m"
      by (auto simp: run_snoc split: option.splits)
    from m1 have "reachable states i m1" unfolding reachable_def by blast
    then show ?case using snoc.IH [OF m1] e by (rule step)
  qed
  with reach show ?thesis unfolding reachable_def by blast
qed

subsection \<open>What each operation leaves alone\<close>

lemma queueProcessing_frame:
  "currentState (queueProcessing m) = currentState m"
  "actionQueue (queueProcessing m) = actionQueue m"
  "status (queueProcessing m) = status m"
  "stopCallback (queueProcessing m) = stopCallback m"
  "queuedProcessing (queueProcessing m) = queuedProcessing m"
  "suspended (queueProcessing m) = suspended m"
  "resolved (queueProcessing m) = resolved m"
  "invoked (queueProcessing m) = invoked m"
  "uncaught (queueProcessing m) = uncaught m"
  by (simp_all add: queueProcessing_def)

lemma requeue_frame:
  "currentState (requeue m) = currentState m"
  "actionQueue (requeue m) = actionQueue m"
  "status (requeue m) = status m"
  "stopCallback (requeue m) = stopCallback m"
  "queuedProcessing (requeue m) = queuedProcessing m"
  "suspended (requeue m) = suspended m"
  "resolved (requeue m) = resolved m"
  "invoked (requeue m) = invoked m"
  "uncaught (requeue m) = uncaught m"
  by (simp_all add: requeue_def queueProcessing_frame)

lemma resume_frame:
  "actionQueue (resume x m) = actionQueue m"
  "status (resume x m) = status m"
  "stopCallback (resume x m) = stopCallback m"
  "queuedProcessing (resume x m) = queuedProcessing m"
  "suspended (resume x m) = suspended m"
  "resolved (resume x m) = resolved m"
  "invoked (resume x m) = invoked m"
  by (induction x m rule: resume.induct; simp add: requeue_frame)+

lemma process_frame:
  "status (process states m) = status m"
  "stopCallback (process states m) = stopCallback m"
  "queuedProcessing (process states m) = queuedProcessing m"
  "resolved (process states m) = resolved m"
  "timers (process states m) = timers m"
  by (simp_all add: process_def Let_def split: list.splits option.splits outcome.splits)

lemma pushAction_frame:
  "currentState (pushAction action data m) = currentState m"
  "actionQueue (pushAction action data m) = actionQueue m @ [(action, data)]"
  "status (pushAction action data m) = status m"
  "stopCallback (pushAction action data m) = stopCallback m"
  "queuedProcessing (pushAction action data m) = queuedProcessing m"
  "suspended (pushAction action data m) = suspended m"
  "resolved (pushAction action data m) = resolved m"
  "invoked (pushAction action data m) = invoked m"
  "uncaught (pushAction action data m) = uncaught m"
  by (simp_all add: pushAction_def Let_def queueProcessing_frame)

lemma start_frame:
  "currentState (start m) = currentState m"
  "actionQueue (start m) = actionQueue m"
  "stopCallback (start m) = stopCallback m"
  "queuedProcessing (start m) = queuedProcessing m"
  "suspended (start m) = suspended m"
  "resolved (start m) = resolved m"
  "invoked (start m) = invoked m"
  "uncaught (start m) = uncaught m"
  by (simp_all add: start_def queueProcessing_frame)

lemma stop_frame:
  "currentState (stop resolve m) = currentState m"
  "actionQueue (stop resolve m) = actionQueue m"
  "status (stop resolve m) = STOP_PENDING"
  "stopCallback (stop resolve m) = Some resolve"
  "queuedProcessing (stop resolve m) = queuedProcessing m"
  "suspended (stop resolve m) = suspended m"
  "resolved (stop resolve m) = resolved m"
  "invoked (stop resolve m) = invoked m"
  "uncaught (stop resolve m) = uncaught m"
  by (simp_all add: stop_def queueProcessing_frame)

subsection \<open>Invariants of reachable managers\<close>

text \<open>The handle of \<open>setTimeout\<close> is never stored, so the field is never set.\<close>

lemma step_queuedProcessing:
  assumes "step states m e = Some m'" and "queuedProcessing m = None"
  shows "queuedProcessing m' = None"
proof (cases e)
  case (Call_pushAction a d)
  with assms show ?thesis by (auto simp: pushAction_frame)
next
  case Call_start
  with assms show ?thesis by (auto simp: start_frame)
next
  case (Call_stop r)
  with assms show ?thesis by (auto simp: stop_frame)
next
  case Timeout
  with assms show ?thesis
    by (auto simp: timeout_callback_def Let_def process_frame split: if_splits option.splits)
next
  case (Resume k)
  with assms show ?thesis by (auto simp: resume_frame split: if_splits)
qed

lemma reachable_queuedProcessing:
  "reachable states i m \<Longrightarrow> queuedProcessing m = None"
  by (induction rule: reachable_induct)
     (simp_all add: new_StateManager_def step_queuedProcessing)

lemma reachable_queueProcessing:
  "reachable states i m \<Longrightarrow> queueProcessing m = m\<lparr>timers := Suc (timers m)\<rparr>"
  by (simp add: queueProcessing_def reachable_queuedProcessing)

text \<open>A pending stop has its callback.\<close>

lemma step_stopCallback:
  assumes "step states m e = Some m'"
    and "status m = STOP_PENDING \<longrightarrow> stopCallback m \<noteq> None"
  shows "status m' = STOP_PENDING \<longrightarrow> stopCallback m' \<noteq> None"
proof (cases e)
  case (Call_pushAction a d)
  with assms show ?thesis by (auto simp: pushAction_frame)
next
  case Call_start
  with assms show ?thesis by (auto simp: start_def queueProcessing_frame split: if_splits)
next
  case (Call_stop r)
  with assms show ?thesis by (auto simp: stop_frame)
next
  case Timeout
  with assms show ?thesis
    by (auto simp: timeout_callback_def Let_def process_frame split: if_splits option.splits)
next
  case (Resume k)
  with assms show ?thesis by (auto simp: resume_frame split: if_splits)
qed

lemma reachable_stopCallback:
  "reachable states i m \<Longrightarrow> status m = STOP_PENDING \<longrightarrow> stopCallback m \<noteq> None"
  by (induction rule: reachable_induct)
     (simp_all add: new_StateManager_def step_stopCallback)

subsection \<open>The queue and the handler invocations of a run\<close>

text \<open>
  A step changes the queue in two ways only: \<open>pushAction\<close> appends at the tail, and a
  timer callback removes the head.  A handler is invoked only for an action that is
  removed in the same step.  So along every run the actions that have left the queue,
  followed by the queue, are the pushed actions in push order, and the invoked handlers
  belong to a subsequence of the actions that have left the queue: no action is
  reordered, merged or taken twice.
\<close>

lemma pushed_append: "pushed (es @ fs) = pushed es @ pushed fs"
  by (induction es rule: pushed.induct) simp_all

lemma step_queue_invoked:
  assumes "step states m e = Some m'"
  shows "(\<exists>a d. e = Call_pushAction a d \<and> actionQueue m' = actionQueue m @ [(a, d)]
            \<and> invoked m' = invoked m)
       \<or> (pushed [e] = [] \<and> actionQueue m' = actionQueue m \<and> invoked m' = invoked m)
       \<or> (e = Timeout \<and> (\<exists>a d. actionQueue m = (a, d) # actionQueue m'
            \<and> (invoked m' = invoked m \<or> invoked m' = invoked m @ [(currentState m, a, d)])))"
proof (cases e)
  case (Call_pushAction a d)
  with assms show ?thesis by (auto simp: pushAction_frame)
next
  case Call_start
  with assms show ?thesis by (auto simp: start_frame)
next
  case (Call_stop r)
  with assms show ?thesis by (auto simp: stop_frame)
next
  case Timeout
  with assms show ?thesis
    by (auto simp: timeout_callback_def process_def Let_def
        split: if_splits option.splits list.splits outcome.splits)
next
  case (Resume k)
  with assms show ?thesis by (auto simp: resume_frame split: if_splits)
qed

lemma run_queue_invoked:
  assumes "run states m es = Some m'"
  shows "\<exists>taken. actionQueue m @ pushed es = taken @ actionQueue m'
           \<and> subseq (map snd (invoked m')) (map snd (invoked m) @ taken)"
  using assms
proof (induction es arbitrary: m' rule: rev_induct)
  case Nil
  then show ?case by auto
next
  case (snoc e es)
  from snoc.prems obtain m1 where
    m1: "run states m es = Some m1" and e: "step states m1 e = Some m'"
    by (auto simp: run_snoc split: option.splits)
  from snoc.IH [OF m1] obtain taken where
    q: "actionQueue m @ pushed es = taken @ actionQueue m1" and
    s: "subseq (map snd (invoked m1)) (map snd (invoked m) @ taken)"
    by blast
  from step_queue_invoked [OF e] consider
    (push) a d where "e = Call_pushAction a d" "actionQueue m' = actionQueue m1 @ [(a, d)]"
      "invoked m' = invoked m1"
    | (same) "pushed [e] = []" "actionQueue m' = actionQueue m1" "invoked m' = invoked m1"
    | (skip) a d where "pushed [e] = []" "actionQueue m1 = (a, d) # actionQueue m'"
      "invoked m' = invoked m1"
    | (call) a d where "pushed [e] = []" "actionQueue m1 = (a, d) # actionQueue m'"
      "invoked m' = invoked m1 @ [(currentState m1, a, d)]"
    by auto
  then show ?case
  proof cases
    case push
    with q s show ?thesis by (auto simp: pushed_append)
  next
    case same
    with q s show ?thesis by (auto simp: pushed_append)
  next
    case skip
    have "actionQueue m @ pushed (es @ [e]) = (taken @ [(a, d)]) @ actionQueue m'"
      using q skip by (simp add: pushed_append)
    moreover have "subseq (map snd (invoked m')) (map snd (invoked m) @ taken @ [(a, d)])"
      using s skip(3) list_emb_prefix [of "(=)" _ "map snd (invoked m) @ taken" "[(a, d)]"]
      by simp
    ultimately show ?thesis by blast
  next
    case call
    have "actionQueue m @ pushed (es @ [e]) = (taken @ [(a, d)]) @ actionQueue m'"
      using q call by (simp add: pushed_append)
    moreover have "subseq (map snd (invoked m')) (map snd (invoked m) @ taken @ [(a, d)])"
      using s call(3)
        list_emb_append_mono [of "(=)" "map snd (invoked m1)" "map snd (invoked m) @ taken"
          "[(a, d)]" "[(a, d)]"]
      by simp
    ultimately show ?thesis by blast
  qed
qed

lemma fifo_invocation:
  assumes "run states (new_StateManager i) es = Some m"
  shows "\<exists>taken. pushed es = taken @ actionQueue m \<and> subseq (map snd (invoked m)) taken"
  using run_queue_invoked [OF assms] by (simp add: new_StateManager_def)

subsection \<open>Where resolved stop callbacks come from\<close>

text \<open>
  A callback that is resolved or stored after a run was resolved or stored before it, or
  was handed over by a call of \<open>stop\<close> during it.
\<close>

lemma step_resolved:
  assumes "step states m e = Some m'"
  shows "set (resolved m') \<union> set_option (stopCallback m')
       \<subseteq> set (resolved m) \<union> set_option (stopCallback m) \<union> set (stop_calls [e])"
proof (cases e)
  case (Call_pushAction a d)
  with assms show ?thesis by (auto simp: pushAction_frame)
next
  case Call_start
  with assms show ?thesis by (auto simp: start_frame)
next
  case (Call_stop r)
  with assms show ?thesis by (auto simp: stop_frame)
next
  case Timeout
  with assms show ?thesis
    by (auto simp: timeout_callback_def process_frame Let_def
        split: if_splits option.splits)
next
  case (Resume k)
  with assms show ?thesis by (auto simp: resume_frame split: if_splits)
qed

lemma stop_calls_append: "stop_calls (es @ fs) = stop_calls es @ stop_calls fs"
  by (induction es rule: stop_calls.induct) simp_all

lemma run_resolved:
  assumes "run states m es = Some m'"
  shows "set (resolved m') \<union> set_option (stopCallback m')
       \<subseteq> set (resolved m) \<union> set_option (stopCallback m) \<union> set (stop_calls es)"
  using assms
proof (induction es arbitrary: m' rule: rev_induct)
  case Nil
  then show ?case by simp
next
  case (snoc e es)
  from snoc.prems obtain m1 where
    m1: "run states m es = Some m1" and e: "step states m1 e = Some m'"
    by (auto simp: run_snoc split: option.splits)
  from snoc.IH [OF m1] step_resolved [OF e] show ?case
    by (auto simp: stop_calls_append)
qed

subsection \<open>A stopped manager with nothing pending\<close>

text \<open>
  When the status is \<open>STOPPED\<close>, no timer callback is registered and no run is suspended,
  then without a call of \<open>start\<close> or \<open>stop\<close> nothing but \<open>pushAction\<close> can happen, and the
  current state stays as it is.
\<close>

lemma idle_stopped_step:
  assumes "step states m e = Some m'"
    and "status m = STOPPED" "timers m = 0" "suspended m = []"
    and "e \<noteq> Call_start" "stop_calls [e] = []"
  shows "status m' = STOPPED \<and> timers m' = 0 \<and> suspended m' = []
    \<and> currentState m' = currentState m \<and> invoked m' = invoked m"
  using assms by (cases e) (auto simp: pushAction_def)

lemma idle_stopped_run:
  assumes "run states m es = Some m'"
    and "status m = STOPPED" "timers m = 0" "suspended m = []"
    and "Call_start \<notin> set es" "stop_calls es = []"
  shows "status m' = STOPPED \<and> timers m' = 0 \<and> suspended m' = []
    \<and> currentState m' = currentState m \<and> invoked m' = invoked m"
  using assms
proof (induction es arbitrary: m)
  case Nil
  then show ?case by simp
next
  case (Cons e es)
  from Cons.prems(1) obtain m1 where
    e: "step states m e = Some m1" and rest: "run states m1 es = Some m'"
    by (auto split: option.splits)
  have se: "stop_calls [e] = []" and ses: "stop_calls es = []"
    using Cons.prems(6) by (cases e; simp)+
  from idle_stopped_step [OF e Cons.prems(2-4) _ se] Cons.prems(5)
  have m1: "status m1 = STOPPED" "timers m1 = 0" "suspended m1 = []"
    "currentState m1 = currentState m" "invoked m1 = invoked m"
    by auto
  from Cons.IH [OF rest m1(1-3) _ ses] Cons.prems(5) m1(4,5) show ?case by auto
qed

subsection \<open>Synchronous handlers are applied in push order\<close>

text \<open>
  With a synchronous table every suspension continues in a microtask, so no timer
  callback runs while a handler's result is waiting to be assigned.  Then, whatever the
  interleaving of calls and timer callbacks, a manager that has emptied its queue is in
  the state that the pushed actions lead to when their handlers are applied one after the
  other in push order.
\<close>

lemma spec_apply_in_order_append:
  "spec_apply_in_order states s (xs @ ys)
   = spec_apply_in_order states (spec_apply_in_order states s xs) ys"
  by (induction states s xs rule: spec_apply_in_order.induct)
     (auto split: option.splits outcome.splits returned.splits promise.splits)

lemma synchronous_step:
  assumes sync: "synchronous states"
    and e: "step states m e = Some m'"
    and len: "length (suspended m) \<le> 1" and micro: "list_all microtask (suspended m)"
    and inv: "spec_apply_in_order states
        (about_to_commit (suspended m) (currentState m)) (actionQueue m) = r"
  shows "length (suspended m') \<le> 1 \<and> list_all microtask (suspended m')
    \<and> spec_apply_in_order states
        (about_to_commit (suspended m') (currentState m')) (actionQueue m')
      = spec_apply_in_order states r (pushed [e])"
proof (cases e)
  case (Call_pushAction a d)
  with e have m': "m' = pushAction a d m" by simp
  from len micro inv show ?thesis
    unfolding m' Call_pushAction
    by (simp add: pushAction_frame spec_apply_in_order_append)
next
  case Call_start
  with e have m': "m' = start m" by simp
  from len micro inv show ?thesis
    unfolding m' Call_start by (simp add: start_frame)
next
  case (Call_stop x)
  with e have m': "m' = stop x m" by simp
  from len micro inv show ?thesis
    unfolding m' Call_stop by (simp add: stop_frame)
next
  case Timeout
  with e have enabled: "\<not> list_ex microtask (suspended m)"
    and m': "m' = timeout_callback states (m\<lparr>timers := timers m - 1\<rparr>)"
    by (auto split: if_splits)
  from enabled micro len have empty: "suspended m = []"
    by (cases "suspended m") auto
  show ?thesis
  proof (cases "status m = STOP_PENDING")
    case True
    with empty inv show ?thesis
      unfolding m' Timeout
      by (auto simp: timeout_callback_def Let_def split: option.splits)
  next
    case False
    show ?thesis
    proof (cases "actionQueue m")
      case Nil
      with False empty inv show ?thesis
        unfolding m' Timeout by (simp add: timeout_callback_def process_def)
    next
      case (Cons x rest)
      obtain a d where x: "x = (a, d)" by (cases x)
      show ?thesis
      proof (cases "states (currentState m) a")
        case None
        with False empty inv Cons x show ?thesis
          unfolding m' Timeout by (auto simp: timeout_callback_def process_def)
      next
        case (Some t)
        from sync Some obtain s1 where "t d = Return (Value s1)"
          unfolding synchronous_def by blast
        with Some False empty inv Cons x show ?thesis
          unfolding m' Timeout by (auto simp: timeout_callback_def process_def)
      qed
    qed
  qed
next
  case (Resume k)
  with e have k: "k < length (suspended m)"
    and m': "m' = resume (suspended m ! k)
        (m\<lparr>suspended := take k (suspended m) @ drop (Suc k) (suspended m)\<rparr>)"
    by (auto split: if_splits)
  from k len obtain x where one: "suspended m = [x]" and k0: "k = 0"
    by (cases "suspended m") auto
  from micro one have "microtask x" by simp
  then show ?thesis using inv one k0
    unfolding m' Resume
    by (cases x rule: microtask.cases) (auto simp: requeue_frame)
qed

lemma synchronous_run:
  assumes sync: "synchronous states"
    and run: "run states (new_StateManager i) es = Some m"
  shows "length (suspended m) \<le> 1 \<and> list_all microtask (suspended m)
    \<and> spec_apply_in_order states
        (about_to_commit (suspended m) (currentState m)) (actionQueue m)
      = spec_apply_in_order states i (pushed es)"
  using run
proof (induction es arbitrary: m rule: rev_induct)
  case Nil
  then show ?case by (auto simp: new_StateManager_def)
next
  case (snoc e es)
  from snoc.prems obtain m1 where
    m1: "run states (new_StateManager i) es = Some m1" and e: "step states m1 e = Some m"
    by (auto simp: run_snoc split: option.splits)
  from snoc.IH [OF m1] have
    len: "length (suspended m1) \<le> 1" and micro: "list_all microtask (suspended m1)"
    and inv: "spec_apply_in_order states
        (about_to_commit (suspended m1) (currentState m1)) (actionQueue m1)
      = spec_apply_in_order states i (pushed es)"
    by simp_all
  from synchronous_step [OF sync e len micro inv] show ?case
    by (simp add: pushed_append spec_apply_in_order_append)
qed

lemma synchronous_handlers_in_push_order:
  assumes "synchronous states"
    and "run states (new_StateManager i) es = Some m"
    and "actionQueue m = []" and "suspended m = []"
  shows "currentState m = spec_apply_in_order states i (pushed es)"
  using synchronous_run [OF assms(1,2)] assms(3,4) by simp

section \<open>The claims\<close>

subsection \<open>Processing in push order\<close>

text \<open>
  Claim C1: actions pushed while the manager is running are handled strictly in push
  order, so that pushing A, B, C yields the state reached by applying the handler of A,
  then that of B, then that of C.

  The run below starts the manager and pushes \<open>A1\<close> and \<open>A2\<close>; the handler of \<open>A1\<close> in
  \<open>S1\<close> is asynchronous.  Each of the three calls has registered a timer callback.  The
  first takes \<open>A1\<close> and suspends in its handler; the second takes \<open>A2\<close> while the
  current state is still \<open>S1\<close>, finds no handler there and drops it.  The manager ends in
  \<open>S2\<close> with an empty queue, and the handler of \<open>A2\<close> was never invoked, whereas handling
  \<open>A1\<close> and then \<open>A2\<close> leads to \<open>S3\<close>.
\<close>

theorem async_handler_breaks_push_order:
  "run slow_table (new_StateManager S1)
     [Call_start, Call_pushAction A1 (), Call_pushAction A2 (),
      Timeout, Timeout, Resume 1, Timeout, Resume 1, Resume 0]
   = Some \<lparr>currentState = S2, actionQueue = [], status = RUNNING, stopCallback = None,
       queuedProcessing = None, timers = 0, suspended = [], resolved = [],
       invoked = [(S1, A1, ())], uncaught = 0\<rparr>
   \<and> spec_apply_in_order slow_table S1 [(A1, ()), (A2, ())] = S3"
  by (simp add: method_defs slow_table_def)

subsection \<open>One processing run at a time\<close>

text \<open>
  Claim C2: at most one deferred processing run is outstanding at any time, and so at
  most one transition handler is executing at any time.

  After \<open>start\<close> and one \<open>pushAction\<close> two timer callbacks are registered.  With
  asynchronous handlers for both actions, after \<open>start\<close>, two pushes and two timer
  callbacks both handlers have been invoked (both from \<open>S1\<close>) and neither has completed.
\<close>

theorem timers_and_handlers_pile_up:
  "run both_slow_table (new_StateManager S1) [Call_start, Call_pushAction A1 ()]
   = Some \<lparr>currentState = S1, actionQueue = [(A1, ())], status = RUNNING,
       stopCallback = None, queuedProcessing = None, timers = 2, suspended = [],
       resolved = [], invoked = [], uncaught = 0\<rparr>
   \<and> run both_slow_table (new_StateManager S1)
     [Call_start, Call_pushAction A1 (), Call_pushAction A2 (), Timeout, Timeout]
   = Some \<lparr>currentState = S1, actionQueue = [], status = RUNNING,
       stopCallback = None, queuedProcessing = None, timers = 1,
       suspended = [AwaitTransition (Promise (Fulfils S2)),
                    AwaitTransition (Promise (Fulfils S3))],
       resolved = [], invoked = [(S1, A1, ()), (S1, A2, ())], uncaught = 0\<rparr>"
  by (simp add: method_defs both_slow_table_def)

subsection \<open>Two pending stops\<close>

text \<open>
  Claim C3: when \<open>stop\<close> is called twice before the first promise is resolved, both
  callbacks are kept and both are called once the manager is stopped.

  In the run below the second call replaces the stored callback of the first.  When all
  timer callbacks have run, only the second promise has been resolved; nothing is
  registered, suspended or stored any more.
\<close>

theorem second_stop_drops_first_callback:
  "run quick_table (new_StateManager S1) [Call_stop 1, Call_stop 2, Timeout, Timeout, Resume 0]
   = Some \<lparr>currentState = S1, actionQueue = [], status = STOPPED, stopCallback = None,
       queuedProcessing = None, timers = 0, suspended = [], resolved = [2],
       invoked = [], uncaught = 0\<rparr>"
  by (simp add: method_defs quick_table_def)

text \<open>
  From there on the first promise is resolved in no continuation of the run (unless
  \<open>stop\<close> should be handed the same callback again).
\<close>

lemma first_callback_never_resolved:
  assumes "run quick_table
       \<lparr>currentState = S1, actionQueue = [], status = STOPPED, stopCallback = None,
        queuedProcessing = None, timers = 0, suspended = [], resolved = [2],
        invoked = [], uncaught = 0\<rparr> es = Some m"
    and "1 \<notin> set (stop_calls es)"
  shows "1 \<notin> set (resolved m)"
  using run_resolved [OF assms(1)] assms(2) by auto

subsection \<open>Stop while a handler is suspended\<close>

text \<open>
  Claim C4: when \<open>stop\<close> is called while a transition handler is suspended, the promise
  it returns is resolved only after the result of that handler has become the current
  state.

  In the run below the handler of \<open>A1\<close> has been invoked and is suspended when \<open>stop\<close> is
  called.  \<open>stop\<close> registers a timer callback, which runs while the handler is still
  suspended: it sets the status to \<open>STOPPED\<close> and resolves the promise.  At that moment
  \<open>getCurrentState\<close> still returns \<open>S1\<close>.  No more than one timer callback is registered
  at any point of this run.
\<close>

theorem stop_resolves_before_handler_finishes:
  "run slow_table (new_StateManager S1)
     [Call_start, Timeout, Resume 0, Call_pushAction A1 (), Timeout, Call_stop 1, Timeout]
   = Some \<lparr>currentState = S1, actionQueue = [], status = STOPPED, stopCallback = None,
       queuedProcessing = None, timers = 0,
       suspended = [AwaitTransition (Promise (Fulfils S2))], resolved = [1],
       invoked = [(S1, A1, ())], uncaught = 0\<rparr>
   \<and> getCurrentState \<lparr>currentState = S1, actionQueue = [], status = STOPPED,
       stopCallback = None, queuedProcessing = None, timers = 0,
       suspended = [AwaitTransition (Promise (Fulfils S2))], resolved = [1::nat],
       invoked = [(S1, A1, ())], uncaught = 0\<rparr> = S1"
  by (simp add: method_defs slow_table_def getCurrentState_def)

subsection \<open>The timer callback under a pending stop\<close>

lemma pending_tick_frame:
  assumes "status m = STOP_PENDING"
  shows "status (timeout_callback states m) = STOPPED"
    and "actionQueue (timeout_callback states m) = actionQueue m"
    and "currentState (timeout_callback states m) = currentState m"
    and "invoked (timeout_callback states m) = invoked m"
    and "suspended (timeout_callback states m) = suspended m"
    and "timers (timeout_callback states m) = timers m"
  using assms by (simp_all add: timeout_callback_def Let_def split: option.splits)

text \<open>
  The timer callback itself does what is asked of it.  When it runs on a reachable manager
  whose status is \<open>STOP_PENDING\<close>, it sets the status to \<open>STOPPED\<close>, calls the stored stop
  callback and clears the slot, and processes no action: the queue and the current state
  are the same right afterwards, no handler has been invoked and no run of \<open>process\<close> is
  left suspended, also when the queue is not empty.
\<close>

lemma stop_pending_tick:
  assumes "reachable states i m" and "status m = STOP_PENDING"
    and "step states m Timeout = Some m'"
  shows "status m' = STOPPED
    \<and> (\<exists>resolve. stopCallback m = Some resolve \<and> resolved m' = resolved m @ [resolve])
    \<and> stopCallback m' = None
    \<and> uncaught m' = uncaught m
    \<and> actionQueue m' = actionQueue m
    \<and> currentState m' = currentState m
    \<and> invoked m' = invoked m
    \<and> suspended m' = suspended m"
proof -
  from assms(1,2) obtain resolve where cb: "stopCallback m = Some resolve"
    using reachable_stopCallback by fastforce
  from assms(3) have m': "m' = timeout_callback states (m\<lparr>timers := timers m - 1\<rparr>)"
    by (simp split: if_splits)
  have pending: "status (m\<lparr>timers := timers m - 1\<rparr>) = STOP_PENDING"
    using assms(2) by simp
  have "stopCallback m' = None" "resolved m' = resolved m @ [resolve]" "uncaught m' = uncaught m"
    using assms(2) cb by (simp_all add: m' timeout_callback_def Let_def)
  moreover have "status m' = STOPPED" "actionQueue m' = actionQueue m"
    "currentState m' = currentState m" "invoked m' = invoked m" "suspended m' = suspended m"
    using pending_tick_frame [OF pending, of states] by (simp_all add: m')
  ultimately show ?thesis using cb by simp
qed

lemma stop_pending_tick_example:
  "reachable quick_table S1
     \<lparr>currentState = S1, actionQueue = [(A1, ())], status = STOP_PENDING,
      stopCallback = Some 7, queuedProcessing = None, timers = 1, suspended = [],
      resolved = [], invoked = [], uncaught = 0\<rparr>
   \<and> step quick_table
     \<lparr>currentState = S1, actionQueue = [(A1, ())], status = STOP_PENDING,
      stopCallback = Some 7, queuedProcessing = None, timers = 1, suspended = [],
      resolved = [], invoked = [], uncaught = 0\<rparr> Timeout
     = Some \<lparr>currentState = S1, actionQueue = [(A1, ())], status = STOPPED,
      stopCallback = None, queuedProcessing = None, timers = 0, suspended = [],
      resolved = [7], invoked = [], uncaught = 0\<rparr>"
proof -
  let ?m = "\<lparr>currentState = S1, actionQueue = [(A1, ())], status = STOP_PENDING,
      stopCallback = Some 7, queuedProcessing = None, timers = 1, suspended = [],
      resolved = [], invoked = [], uncaught = 0\<rparr> :: (states, actions, unit) StateManager"
  let ?m' = "\<lparr>currentState = S1, actionQueue = [(A1, ())], status = STOPPED,
      stopCallback = None, queuedProcessing = None, timers = 0, suspended = [],
      resolved = [7], invoked = [], uncaught = 0\<rparr> :: (states, actions, unit) StateManager"
  have "run quick_table (new_StateManager S1) [Call_pushAction A1 (), Call_stop 7] = Some ?m"
    by (simp add: pushAction_def stop_def queueProcessing_def new_StateManager_def)
  then have r: "reachable quick_table S1 ?m" unfolding reachable_def by blast
  have p: "status ?m = STOP_PENDING" by simp
  have s: "step quick_table ?m Timeout = Some ?m'"
    by (simp add: timeout_callback_def)
  from stop_pending_tick [OF r p s] r s show ?thesis by simp
qed

text \<open>
  Claim C5: a timer callback that runs under \<open>STOP_PENDING\<close> sets the status to \<open>STOPPED\<close>,
  calls and clears the stop callback and processes no action on that tick, so that the
  queue and the current state are unchanged and the buffered actions remain available for
  a future \<open>start\<close>.

  The tick does so (\<open>stop_pending_tick\<close>), but the buffered actions do not wait for
  \<open>start\<close>.  In the run below \<open>start\<close>, \<open>pushAction\<close> and \<open>stop\<close> have registered a timer
  callback each.  The first one honours the stop: afterwards the status is \<open>STOPPED\<close>, the
  promise is resolved and \<open>A1\<close> is still in the queue.  The next callback, which only
  tests for \<open>STOP_PENDING\<close>, then takes \<open>A1\<close> and its handler moves the manager to \<open>S2\<close>
  while the status is \<open>STOPPED\<close>.  A call of \<open>start\<close> after that finds the queue empty.
\<close>

theorem buffered_action_taken_after_stop:
  "run quick_table (new_StateManager S1)
     [Call_start, Call_pushAction A1 (), Call_stop 1, Timeout]
   = Some \<lparr>currentState = S1, actionQueue = [(A1, ())], status = STOPPED,
       stopCallback = None, queuedProcessing = None, timers = 2, suspended = [],
       resolved = [1], invoked = [], uncaught = 0\<rparr>
   \<and> run quick_table
       \<lparr>currentState = S1, actionQueue = [(A1, ())], status = STOPPED,
        stopCallback = None, queuedProcessing = None, timers = 2, suspended = [],
        resolved = [1], invoked = [], uncaught = 0\<rparr>
       [Timeout, Resume 0]
   = Some \<lparr>currentState = S2, actionQueue = [], status = STOPPED,
       stopCallback = None, queuedProcessing = None, timers = 1, suspended = [],
       resolved = [1], invoked = [(S1, A1, ())], uncaught = 0\<rparr>
   \<and> run quick_table
       \<lparr>currentState = S2, actionQueue = [], status = STOPPED,
        stopCallback = None, queuedProcessing = None, timers = 1, suspended = [],
        resolved = [1], invoked = [(S1, A1, ())], uncaught = 0\<rparr>
       [Call_start]
   = Some \<lparr>currentState = S2, actionQueue = [], status = RUNNING,
       stopCallback = None, queuedProcessing = None, timers = 2, suspended = [],
       resolved = [1], invoked = [(S1, A1, ())], uncaught = 0\<rparr>"
  by (simp add: method_defs quick_table_def)

subsection \<open>An action without a handler\<close>

text \<open>
  Claim C6.  When the action at the head of the queue has no handler in the current
  state, \<open>process\<close> removes it and returns: the remaining queue is the tail, the current
  state is unchanged, no handler is invoked and no exception is raised, neither in
  \<open>process\<close> nor when the timer callback continues after it.
\<close>

theorem unregistered_action_discarded:
  assumes "actionQueue m = (action, data) # rest"
    and "states (currentState m) action = None"
  shows "process states m = m\<lparr>actionQueue := rest, suspended := suspended m @ [AwaitProcess]\<rparr>
    \<and> currentState (process states m) = currentState m
    \<and> actionQueue (process states m) = rest
    \<and> invoked (process states m) = invoked m
    \<and> uncaught (process states m) = uncaught m
    \<and> currentState (resume AwaitProcess n) = currentState n
    \<and> actionQueue (resume AwaitProcess n) = actionQueue n
    \<and> invoked (resume AwaitProcess n) = invoked n
    \<and> uncaught (resume AwaitProcess n) = uncaught n"
  using assms by (simp add: process_def requeue_frame)

theorem unregistered_action_discarded_witness:
  "process quick_table
     ((new_StateManager S1) \<lparr>actionQueue := [(A2, ()), (A1, ())]\<rparr>)
   = (new_StateManager S1) \<lparr>actionQueue := [(A1, ())], suspended := [AwaitProcess]\<rparr>"
proof -
  let ?m = "(new_StateManager S1) \<lparr>actionQueue := [(A2, ()), (A1, ())]\<rparr>
    :: (states, actions, unit) StateManager"
  have q: "actionQueue ?m = (A2, ()) # [(A1, ())]" by simp
  have h: "quick_table (currentState ?m) A2 = None"
    by (simp add: quick_table_def new_StateManager_def)
  note discarded = unregistered_action_discarded
    [where states = quick_table and m = ?m and action = A2 and data = "()"
       and rest = "[(A1, ())]" and n = ?m]
  from discarded [OF q h, THEN conjunct1] show ?thesis
    by (simp add: new_StateManager_def)
qed

subsection \<open>Pushing while stopped\<close>

text \<open>
  \<open>pushAction\<close> is defined for every manager, appends the action at the tail of the queue
  and leaves the current state and the status alone.
\<close>

lemma pushAction_appends:
  "step states m (Call_pushAction action data) = Some (pushAction action data m)
   \<and> actionQueue (pushAction action data m) = actionQueue m @ [(action, data)]
   \<and> currentState (pushAction action data m) = currentState m
   \<and> status (pushAction action data m) = status m"
  by (simp add: pushAction_frame)

text \<open>
  Claim C7: \<open>pushAction\<close> always appends to the tail of the queue and never fails, and
  actions pushed while the manager is stopped do not change the current state until
  \<open>start\<close> is called.

  The first half holds (\<open>pushAction_appends\<close>).  For the second, \<open>start\<close> followed by
  \<open>stop\<close> registers two timer callbacks.  The first one stops the manager and resolves the
  promise; the second one is still registered.  An action pushed now, while the status is
  \<open>STOPPED\<close>, is taken by that second callback and its handler moves the manager to
  \<open>S2\<close>, with no call of \<open>start\<close> in between.
\<close>

theorem stopped_manager_processes_push:
  "run quick_table (new_StateManager S1) [Call_start, Call_stop 1, Timeout]
   = Some \<lparr>currentState = S1, actionQueue = [], status = STOPPED, stopCallback = None,
       queuedProcessing = None, timers = 1, suspended = [], resolved = [1],
       invoked = [], uncaught = 0\<rparr>
   \<and> run quick_table
       \<lparr>currentState = S1, actionQueue = [], status = STOPPED, stopCallback = None,
        queuedProcessing = None, timers = 1, suspended = [], resolved = [1],
        invoked = [], uncaught = 0\<rparr>
       [Call_pushAction A1 (), Timeout, Resume 0]
   = Some \<lparr>currentState = S2, actionQueue = [], status = STOPPED, stopCallback = None,
       queuedProcessing = None, timers = 0, suspended = [], resolved = [1],
       invoked = [(S1, A1, ())], uncaught = 0\<rparr>"
  by (simp add: method_defs quick_table_def)

subsection \<open>The changes of the status\<close>

text \<open>
  Claim C8, as amended.  A step changes the status only from \<open>STOPPED\<close> to \<open>RUNNING\<close> (a
  call of \<open>start\<close>), from any status to \<open>STOP_PENDING\<close> (a call of \<open>stop\<close>, which sets it
  unconditionally) and from \<open>STOP_PENDING\<close> to \<open>STOPPED\<close> (a timer callback); \<open>start\<close> on a
  manager that is not stopped changes nothing at all.
\<close>

theorem status_changes:
  assumes "step states m e = Some m'"
  shows "(status m' = status m
      \<or> status m = STOPPED \<and> e = Call_start \<and> status m' = RUNNING
      \<or> (\<exists>resolve. e = Call_stop resolve) \<and> status m' = STOP_PENDING
      \<or> status m = STOP_PENDING \<and> e = Timeout \<and> status m' = STOPPED)
    \<and> (if status m = STOPPED then status (start m) = RUNNING else start m = m)"
proof (cases e)
  case (Call_pushAction a d)
  with assms show ?thesis by (auto simp: pushAction_frame start_def queueProcessing_frame)
next
  case Call_start
  with assms show ?thesis by (auto simp: start_def queueProcessing_frame)
next
  case (Call_stop r)
  with assms show ?thesis by (auto simp: stop_frame start_def queueProcessing_frame)
next
  case Timeout
  with assms show ?thesis
    by (auto simp: timeout_callback_def Let_def process_frame start_def queueProcessing_frame
        split: if_splits option.splits)
next
  case (Resume k)
  with assms show ?thesis
    by (auto simp: resume_frame start_def queueProcessing_frame split: if_splits)
qed

theorem status_changes_witness:
  "step quick_table (new_StateManager S1) (Call_stop 1) = Some (stop 1 (new_StateManager S1))
   \<and> status (stop 1 (new_StateManager S1) :: (states, actions, unit) StateManager) = STOP_PENDING
   \<and> status (start (new_StateManager S1) :: (states, actions, unit) StateManager) = RUNNING"
  using status_changes [of quick_table "new_StateManager S1" "Call_stop 1"
      "stop 1 (new_StateManager S1)"]
  by (simp add: stop_frame new_StateManager_def)

text \<open>
  As the claim stands, \<open>stop\<close> would change the status only from \<open>RUNNING\<close>.  On a new
  manager it changes it from \<open>STOPPED\<close> to \<open>STOP_PENDING\<close>.
\<close>

theorem stop_from_stopped_counterexample:
  "status (new_StateManager S1 :: (states, actions, unit) StateManager) = STOPPED
   \<and> run quick_table (new_StateManager S1) [Call_stop 1] = Some (stop 1 (new_StateManager S1))
   \<and> status (stop 1 (new_StateManager S1) :: (states, actions, unit) StateManager) = STOP_PENDING"
  by (simp add: stop_frame new_StateManager_def)

subsection \<open>A handler that fails\<close>



subsection \<open>The callback of a pending stop\<close>

text \<open>
  Claim C10.  On every reachable manager whose status is \<open>STOP_PENDING\<close> the stop callback
  is stored, so the timer callback, which calls it without a check, raises no exception
  there.
\<close>

theorem pending_stop_has_callback:
  assumes "reachable states i m" and "status m = STOP_PENDING"
  shows "(\<exists>resolve. stopCallback m = Some resolve)
    \<and> uncaught (timeout_callback states m) = uncaught m"
proof -
  from assms obtain resolve where "stopCallback m = Some resolve"
    using reachable_stopCallback by fastforce
  with assms(2) show ?thesis by (simp add: timeout_callback_def Let_def)
qed

theorem pending_stop_has_callback_witness:
  "reachable quick_table S1 (stop 3 (start (new_StateManager S1)))
   \<and> status (stop 3 (start (new_StateManager S1)) :: (states, actions, unit) StateManager)
       = STOP_PENDING
   \<and> stopCallback (stop 3 (start (new_StateManager S1)) :: (states, actions, unit) StateManager)
       = Some 3
   \<and> uncaught (timeout_callback quick_table (stop 3 (start (new_StateManager S1)))) = 0"
proof -
  let ?m = "stop 3 (start (new_StateManager S1)) :: (states, actions, unit) StateManager"
  have "run quick_table (new_StateManager S1) [Call_start, Call_stop 3] = Some ?m"
    by simp
  then have r: "reachable quick_table S1 ?m" unfolding reachable_def by blast
  have p: "status ?m = STOP_PENDING" by (simp add: stop_frame)
  from pending_stop_has_callback [OF r p] r p show ?thesis
    by (simp add: stop_frame start_frame new_StateManager_def)
qed

end
